theory Spec2Isabelle
  imports Complex_Main
begin

section \<open>Python lists and errors\<close>

text \<open>
  The program is \<^verbatim>\<open>src/main.py\<close>. An exception is a value of the type \<open>py_error\<close>; a
  computation that may raise has a sum type, the exception on the left.

  A subscript is an \<^typ>\<open>int\<close>: Python counts a negative subscript from the end of the list
  and raises \<^verbatim>\<open>IndexError\<close> for a subscript outside \<open>-len .. len - 1\<close>.
\<close>

datatype py_error = IndexError | ZeroDivisionError | EOFError | ValueError | OverflowError

definition sum_bind :: "'e + 'a \<Rightarrow> ('a \<Rightarrow> 'e + 'b) \<Rightarrow> 'e + 'b" where
  "sum_bind m f = (case m of Inl e \<Rightarrow> Inl e | Inr x \<Rightarrow> f x)"

definition subscript :: "nat \<Rightarrow> int \<Rightarrow> nat option" where
  "subscript n i =
     (if 0 \<le> i \<and> i < int n then Some (nat i)
      else if i < 0 \<and> - int n \<le> i then Some (nat (int n + i))
      else None)"

definition getitem :: "'a list \<Rightarrow> int \<Rightarrow> py_error + 'a" where
  "getitem xs i =
     (case subscript (length xs) i of None \<Rightarrow> Inl IndexError | Some j \<Rightarrow> Inr (xs ! j))"

definition setitem :: "'a list \<Rightarrow> int \<Rightarrow> 'a \<Rightarrow> py_error + 'a list" where
  "setitem xs i v =
     (case subscript (length xs) i of None \<Rightarrow> Inl IndexError | Some j \<Rightarrow> Inr (xs[j := v]))"

text \<open>\<^verbatim>\<open>for idx in idxs: xs[idx] = v\<close>, stopping at the first subscript that raises.\<close>

fun assign_each :: "'a list \<Rightarrow> int list \<Rightarrow> 'a \<Rightarrow> py_error + 'a list" where
  "assign_each xs [] v = Inr xs"
| "assign_each xs (i # idxs) v = sum_bind (setitem xs i v) (\<lambda>xs'. assign_each xs' idxs v)"

text \<open>\<^verbatim>\<open>range(a, b)\<close> is \<open>a, a + 1, ..., b - 1\<close>, empty when \<open>b \<le> a\<close>.\<close>

definition py_range :: "int \<Rightarrow> int \<Rightarrow> int list" where
  "py_range a b = [a..b - 1]"

section \<open>Python numbers\<close>

text \<open>
  A Python float is an IEEE 754 binary64 number. The model holds a float as the rational
  number it denotes and rounds the exact result of every float operation to the nearest
  binary64 number, a tie going to the even significand: \<open>fl x\<close> is \<open>x\<close> rounded to a multiple
  of \<open>2 ^ (e - 52)\<close>, where \<open>2 ^ e \<le> \<bar>x\<bar> < 2 ^ (e + 1)\<close> and \<open>e\<close> is kept inside
  \<open>-1022 .. 1023\<close> (the subnormal numbers are the multiples of \<open>2 ^ -1074\<close>).

  A rounded result of magnitude \<open>2 ^ 1024\<close> or more stands for Python's \<^verbatim>\<open>inf\<close>: binary64
  arithmetic overflows exactly when the rounding to an unbounded exponent reaches
  \<open>2 ^ 1024\<close>. The operations that Python refuses on \<^verbatim>\<open>inf\<close> (\<^verbatim>\<open>int\<close>, \<^verbatim>\<open>math.ceil\<close>) raise
  \<^verbatim>\<open>OverflowError\<close> on such a value. The numbers that the operator types are finite, and
  no operation of the program makes a \<^verbatim>\<open>nan\<close> from finite numbers.
\<close>

definition round_half_even :: "rat \<Rightarrow> int" where
  "round_half_even y =
     (let f = \<lfloor>y\<rfloor>; d = y - of_int f
      in if d < 1 / 2 then f else if 1 / 2 < d then f + 1 else if even f then f else f + 1)"

text \<open>
  The exponent of the binade: the largest \<open>e\<close> in \<open>-1022 .. n - 1022\<close> with
  \<open>2 ^ e \<le> \<bar>x\<bar>\<close>, and -1022 when there is none.
\<close>

fun binade_below :: "nat \<Rightarrow> rat \<Rightarrow> int" where
  "binade_below 0 x = - 1022"
| "binade_below (Suc n) x =
     (if 2 powi (int (Suc n) - 1022) \<le> \<bar>x\<bar> then int (Suc n) - 1022 else binade_below n x)"

text \<open>
  The same exponent, computed with the power of two carried along and halved at every step
  (\<open>p\<close> is \<open>2 ^ (n - 1022)\<close>); the binade of a number is looked for from \<open>2 ^ 1023\<close> down.
\<close>

fun binade_scan :: "nat \<Rightarrow> rat \<Rightarrow> rat \<Rightarrow> int" where
  "binade_scan 0 p x = - 1022"
| "binade_scan (Suc n) p x =
     (if p \<le> \<bar>x\<bar> then int (Suc n) - 1022 else binade_scan n (p / 2) x)"

definition binade :: "rat \<Rightarrow> int" where
  "binade x = binade_scan 2045 (2 ^ 1023) x"

definition fl :: "rat \<Rightarrow> rat" where
  "fl x = of_int (round_half_even (x / 2 powi (binade x - 52))) * 2 powi (binade x - 52)"

definition is_inf :: "rat \<Rightarrow> bool" where
  "is_inf x = (2 ^ 1024 \<le> \<bar>x\<bar>)"

text \<open>
  A number of the program is an \<^verbatim>\<open>int\<close> or a \<^verbatim>\<open>float\<close>: the lists \<^verbatim>\<open>cwnd\<close>, \<^verbatim>\<open>ssthresh\<close> and
  \<^verbatim>\<open>rcwnd\<close> hold both (\<^verbatim>\<open>[1] * 65\<close> is a list of ints, \<^verbatim>\<open>math.ceil\<close> returns an int,
  a true division returns a float). Arithmetic on two ints is exact.
\<close>

datatype num = PInt int | PFloat rat

fun val :: "num \<Rightarrow> rat" where
  "val (PInt k) = of_int k"
| "val (PFloat r) = r"

text \<open>\<^verbatim>\<open>float(k)\<close>, the conversion of an int operand in mixed arithmetic.\<close>

definition to_float :: "num \<Rightarrow> py_error + rat" where
  "to_float x =
     (case x of
        PFloat r \<Rightarrow> Inr r
      | PInt k \<Rightarrow> if is_inf (fl (of_int k)) then Inl OverflowError else Inr (fl (of_int k)))"

text \<open>\<^verbatim>\<open>x + y\<close> and \<^verbatim>\<open>x - y\<close>.\<close>

definition py_add :: "num \<Rightarrow> num \<Rightarrow> py_error + num" where
  "py_add x y =
     (case (x, y) of
        (PInt a, PInt b) \<Rightarrow> Inr (PInt (a + b))
      | _ \<Rightarrow> sum_bind (to_float x) (\<lambda>a. sum_bind (to_float y) (\<lambda>b. Inr (PFloat (fl (a + b))))))"

definition py_sub :: "num \<Rightarrow> num \<Rightarrow> py_error + num" where
  "py_sub x y =
     (case (x, y) of
        (PInt a, PInt b) \<Rightarrow> Inr (PInt (a - b))
      | _ \<Rightarrow> sum_bind (to_float x) (\<lambda>a. sum_bind (to_float y) (\<lambda>b. Inr (PFloat (fl (a - b))))))"

text \<open>
  \<^verbatim>\<open>x / y\<close>, true division: always a float. The quotient of two ints is the exact quotient
  rounded once, and too large a quotient raises \<^verbatim>\<open>OverflowError\<close>; the quotient of floats
  overflows to \<^verbatim>\<open>inf\<close>.
\<close>

definition py_div :: "num \<Rightarrow> num \<Rightarrow> py_error + num" where
  "py_div x y =
     (case (x, y) of
        (PInt a, PInt b) \<Rightarrow>
          if b = 0 then Inl ZeroDivisionError
          else if is_inf (fl (of_int a / of_int b)) then Inl OverflowError
          else Inr (PFloat (fl (of_int a / of_int b)))
      | _ \<Rightarrow> sum_bind (to_float x) (\<lambda>a. sum_bind (to_float y) (\<lambda>b.
               if b = 0 then Inl ZeroDivisionError else Inr (PFloat (fl (a / b))))))"

text \<open>Comparisons of numbers are exact, also between an int and a float.\<close>

definition py_lt :: "num \<Rightarrow> num \<Rightarrow> bool" where
  "py_lt x y = (val x < val y)"

text \<open>\<^verbatim>\<open>max(x, y)\<close> of two arguments: the first unless the second is greater.\<close>

definition py_max :: "num \<Rightarrow> num \<Rightarrow> num" where
  "py_max x y = (if py_lt x y then y else x)"

text \<open>\<^verbatim>\<open>int(x)\<close> truncates a float towards zero; \<^verbatim>\<open>math.ceil(x)\<close> returns an int.\<close>

definition trunc :: "rat \<Rightarrow> int" where
  "trunc x = (if 0 \<le> x then \<lfloor>x\<rfloor> else \<lceil>x\<rceil>)"

definition py_int :: "num \<Rightarrow> py_error + int" where
  "py_int x =
     (case x of
        PInt k \<Rightarrow> Inr k
      | PFloat r \<Rightarrow> if is_inf r then Inl OverflowError else Inr (trunc r))"

definition py_ceil :: "num \<Rightarrow> py_error + num" where
  "py_ceil x =
     (case x of
        PInt k \<Rightarrow> Inr (PInt k)
      | PFloat r \<Rightarrow> if is_inf r then Inl OverflowError else Inr (PInt \<lceil>r\<rceil>))"

text \<open>
  \<^verbatim>\<open>round(x, 2)\<close>: an int is returned as it is; a float is rounded, as the exact number it
  denotes, to the nearest multiple of 1/100 (a tie going to the even multiple), and the
  result is the float nearest to that decimal number.
\<close>

definition py_round2 :: "num \<Rightarrow> num" where
  "py_round2 x =
     (case x of
        PInt k \<Rightarrow> PInt k
      | PFloat r \<Rightarrow> PFloat (fl (of_int (round_half_even (r * 100)) / 100)))"

section \<open>Parameters and schedules\<close>


text \<open>
  \<^verbatim>\<open>update_rcwnd\<close> (lines 31-48). The second argument of the model is the sequence of
  numbers the operator types, each as the float that \<^verbatim>\<open>float\<close> makes of it; reading past
  its end is \<^verbatim>\<open>EOFError\<close>. A new value is read with \<^verbatim>\<open>int\<close>, which raises \<^verbatim>\<open>ValueError\<close> on
  text that is not a whole number.
\<close>

fun update_rcwnd :: "num list \<Rightarrow> rat list \<Rightarrow> rat \<Rightarrow> int \<Rightarrow> py_error + num list" where
  "update_rcwnd rcwnd [] rtt mss = Inl EOFError"
| "update_rcwnd rcwnd [time] rtt mss =
     sum_bind (py_div (PFloat time) (PFloat rtt)) (\<lambda>update_time.
       if py_lt (PInt 65) update_time then Inr rcwnd else Inl EOFError)"
| "update_rcwnd rcwnd (time # new # inp) rtt mss =
     sum_bind (py_div (PFloat time) (PFloat rtt)) (\<lambda>update_time.
       if py_lt (PInt 65) update_time then Inr rcwnd
       else if of_int \<lfloor>new\<rfloor> \<noteq> new then Inl ValueError
       else sum_bind (py_div (PInt \<lfloor>new\<rfloor>) (PInt mss)) (\<lambda>new_val.
            sum_bind (py_int update_time) (\<lambda>first.
            sum_bind (assign_each rcwnd (py_range first 65) new_val) (\<lambda>rcwnd'.
              update_rcwnd rcwnd' inp rtt mss))))"

text \<open>\<^verbatim>\<open>get_working_binary\<close> (lines 50-66): the loop of lines 59-65 on the typed numbers.\<close>

fun mark_errors :: "int list \<Rightarrow> rat list \<Rightarrow> rat \<Rightarrow> py_error + int list" where
  "mark_errors working_binary [] rtt = Inl EOFError"
| "mark_errors working_binary [start] rtt =
     sum_bind (py_div (PFloat start) (PFloat rtt)) (\<lambda>start_error.
       if py_lt (PInt 100) start_error then Inr working_binary else Inl EOFError)"
| "mark_errors working_binary (start # end # inp) rtt =
     sum_bind (py_div (PFloat start) (PFloat rtt)) (\<lambda>start_error.
       if py_lt (PInt 100) start_error then Inr working_binary
       else sum_bind (py_div (PFloat end) (PFloat rtt)) (\<lambda>end_error.
            sum_bind (py_int start_error) (\<lambda>first.
            sum_bind (py_int end_error) (\<lambda>last.
            sum_bind (assign_each working_binary (py_range first last) (- 1))
              (\<lambda>working_binary'. mark_errors working_binary' inp rtt)))))"

definition get_working_binary :: "rat list \<Rightarrow> rat \<Rightarrow> py_error + int list" where
  "get_working_binary inp rtt = mark_errors (replicate 65 0) inp rtt"

section \<open>The congestion window updater\<close>

text \<open>
  Lines 81-85 of \<^verbatim>\<open>update_cwnd\<close>: \<open>n\<close> passes of the loop body, each reading and writing
  \<^verbatim>\<open>cwnd[t]\<close>.
\<close>

fun grow :: "nat \<Rightarrow> num list \<Rightarrow> int \<Rightarrow> num list \<Rightarrow> py_error + num list" where
  "grow 0 cwnd t ssthresh = Inr cwnd"
| "grow (Suc n) cwnd t ssthresh =
     sum_bind (getitem cwnd t) (\<lambda>c.
     sum_bind (getitem ssthresh t) (\<lambda>th.
       if py_lt c th
       then sum_bind (py_add c (PInt 1)) (\<lambda>c'.
            sum_bind (setitem cwnd t c') (\<lambda>cwnd'. grow n cwnd' t ssthresh))
       else sum_bind (py_div (PInt 1) c) (\<lambda>d.
            sum_bind (py_add c d) (\<lambda>c'.
            sum_bind (setitem cwnd t c') (\<lambda>cwnd'. grow n cwnd' t ssthresh)))))"

text \<open>
  \<^verbatim>\<open>update_cwnd\<close> (lines 68-93). It mutates \<^verbatim>\<open>cwnd\<close> and \<^verbatim>\<open>sndwnd\<close> and returns
  \<^verbatim>\<open>cwnd[t]\<close>; the model returns the value and both lists. \<^verbatim>\<open>range(n)\<close> is empty for
  \<open>n \<le> 0\<close>, hence \<^term>\<open>nat\<close>. The entries of \<^verbatim>\<open>sndwnd\<close> are ints. The literal \<^verbatim>\<open>0.55\<close> is the
  float nearest to 55/100, and the second operand of \<^verbatim>\<open>and\<close> is evaluated only when the
  first holds.
\<close>

definition update_cwnd ::
  "num list \<Rightarrow> int \<Rightarrow> int list \<Rightarrow> num list \<Rightarrow> num list \<Rightarrow> py_error + (num \<times> num list \<times> int list)" where
  "update_cwnd cwnd t sndwnd ssthresh rcwnd =
     sum_bind (getitem cwnd (t - 1)) (\<lambda>prev.
     sum_bind (setitem cwnd t prev) (\<lambda>cwnd1.
     sum_bind (getitem sndwnd (t - 1)) (\<lambda>acks.
     sum_bind (grow (nat acks) cwnd1 t ssthresh) (\<lambda>cwnd2.
     sum_bind (getitem rcwnd t) (\<lambda>r.
     sum_bind (py_int r) (\<lambda>ri.
     sum_bind (getitem cwnd2 t) (\<lambda>c.
     sum_bind (py_int c) (\<lambda>ci.
     sum_bind (setitem sndwnd t (min ri ci)) (\<lambda>sndwnd1.
     sum_bind (getitem sndwnd1 t) (\<lambda>sw.
     sum_bind (if sw = ci
               then sum_bind (py_sub c (PInt ci)) (\<lambda>d.
                      if py_lt (PFloat (fl (55 / 100))) d then py_ceil c else Inr c)
               else Inr c) (\<lambda>c'.
     sum_bind (setitem cwnd2 t (py_round2 c')) (\<lambda>cwnd3.
     sum_bind (getitem cwnd3 t) (\<lambda>res. Inr (res, cwnd3, sndwnd1))))))))))))))"

section \<open>The transfer simulator\<close>

text \<open>
  The variables of \<^verbatim>\<open>simulate_tcp_behavior\<close> that its loop changes. \<^verbatim>\<open>rcwnd\<close>,
  \<^verbatim>\<open>working_binary\<close>, \<^verbatim>\<open>total_packets\<close> and \<^verbatim>\<open>total_data\<close> are only read.
\<close>

record sim_state =
  st_cwnd :: "num list"
  st_sndwnd :: "int list"
  st_ssthresh :: "num list"
  st_back_off :: int
  st_total_sent :: int
  st_t :: int
  st_flight_size :: int

text \<open>Lines 108-112; \<^verbatim>\<open>flight_size\<close> is not bound before the loop, 0 stands for that.\<close>

definition init_state :: "num list \<Rightarrow> sim_state" where
  "init_state ssthresh =
     \<lparr>st_cwnd = replicate 65 (PInt 1), st_sndwnd = replicate 65 1, st_ssthresh = ssthresh,
      st_back_off = 2, st_total_sent = 0, st_t = 0, st_flight_size = 0\<rparr>"

text \<open>The test of the \<^verbatim>\<open>while\<close> of line 114.\<close>

definition loop_guard :: "num \<Rightarrow> sim_state \<Rightarrow> bool" where
  "loop_guard total_packets s = (py_lt (PInt (st_total_sent s)) total_packets \<and> st_t s < 65)"

text \<open>
  One pass of the loop body, lines 115-151, in three parts, without the plotting calls
  (they read \<^verbatim>\<open>sndwnd[t]\<close> and \<^verbatim>\<open>cwnd[t]\<close>, which line 115 has already read or written,
  and \<^verbatim>\<open>int(cwnd[t])\<close>, which line 115 has evaluated).

  Lines 115-116: the send window of the step is written and the flight size computed.
\<close>

definition window_and_flight ::
  "num \<Rightarrow> num list \<Rightarrow> sim_state \<Rightarrow> py_error + (int list \<times> int)" where
  "window_and_flight total_packets rcwnd s =
     sum_bind (getitem rcwnd (st_t s)) (\<lambda>r.
     sum_bind (py_int r) (\<lambda>ri.
     sum_bind (getitem (st_cwnd s) (st_t s)) (\<lambda>c.
     sum_bind (py_int c) (\<lambda>ci.
     sum_bind (setitem (st_sndwnd s) (st_t s) (min ri ci)) (\<lambda>sndwnd1.
     sum_bind (getitem sndwnd1 (st_t s)) (\<lambda>sw.
     sum_bind (py_sub total_packets (PInt (st_total_sent s))) (\<lambda>remaining.
     sum_bind (py_int remaining) (\<lambda>rem. Inr (sndwnd1, min sw rem)))))))))"

text \<open>
  Lines 124-139, the step that is not lost. The flag of the result says whether the pass
  left the loop by the \<^verbatim>\<open>break\<close> of line 136.
\<close>

definition normal_step ::
  "num \<Rightarrow> num list \<Rightarrow> sim_state \<Rightarrow> int list \<Rightarrow> int \<Rightarrow> py_error + (bool \<times> sim_state)" where
  "normal_step total_packets rcwnd s sndwnd1 flight =
     (let sent = st_total_sent s + flight
      in if of_int sent = val total_packets
         then Inr (True, s\<lparr>st_sndwnd := sndwnd1, st_back_off := 2, st_total_sent := sent,
                            st_flight_size := flight\<rparr>)
         else sum_bind (update_cwnd (st_cwnd s) (st_t s + 1) sndwnd1 (st_ssthresh s) rcwnd)
                (\<lambda>(res, cwnd1, sndwnd2).
              sum_bind (setitem cwnd1 (st_t s + 1) res) (\<lambda>cwnd2.
                Inr (False, s\<lparr>st_cwnd := cwnd2, st_sndwnd := sndwnd2, st_back_off := 2,
                                 st_total_sent := sent, st_t := st_t s + 1,
                                 st_flight_size := flight\<rparr>))))"

text \<open>
  Lines 142-151, the lost step. \<^verbatim>\<open>flight_size / 2\<close> of line 149 is evaluated once for every
  \<open>x\<close> of the range, so not at all when the range is empty.
\<close>

definition loss_step ::
  "int \<Rightarrow> sim_state \<Rightarrow> int list \<Rightarrow> int \<Rightarrow> py_error + (bool \<times> sim_state)" where
  "loss_step total_data s sndwnd1 flight =
     (let t' = st_t s + st_back_off s
      in sum_bind (setitem (st_cwnd s) t' (PInt 1)) (\<lambda>cwnd1.
         sum_bind (if t' < 65
                   then sum_bind (py_div (PInt flight) (PInt 2)) (\<lambda>half.
                          assign_each (st_ssthresh s) (py_range t' 65) (py_max (PInt 2) half))
                   else Inr (st_ssthresh s)) (\<lambda>ssthresh1.
         sum_bind (getitem sndwnd1 t') (\<lambda>sw'.
           Inr (False, s\<lparr>st_cwnd := cwnd1, st_sndwnd := sndwnd1, st_ssthresh := ssthresh1,
                            st_back_off := st_back_off s * 2, st_t := t',
                            st_flight_size := min sw' (total_data - st_total_sent s)\<rparr>)))))"

definition loop_body ::
  "num \<Rightarrow> int \<Rightarrow> num list \<Rightarrow> int list \<Rightarrow> sim_state \<Rightarrow> py_error + (bool \<times> sim_state)" where
  "loop_body total_packets total_data rcwnd working_binary s =
     sum_bind (window_and_flight total_packets rcwnd s) (\<lambda>(sndwnd1, flight).
     sum_bind (getitem working_binary (st_t s)) (\<lambda>wb.
       if wb = 0 then normal_step total_packets rcwnd s sndwnd1 flight
       else if wb = - 1 then loss_step total_data s sndwnd1 flight
       else Inr (False, s\<lparr>st_sndwnd := sndwnd1, st_flight_size := flight\<rparr>)))"

text \<open>
  The \<^verbatim>\<open>while\<close> loop of lines 114-151. Nothing in the text of the loop bounds the number
  of passes (a pass on a marker other than 0 and -1 changes nothing), so the loop is a
  partial function: \<^term>\<open>None\<close> is a run that never leaves the loop.
\<close>

partial_function (option) simulate_loop ::
  "num \<Rightarrow> int \<Rightarrow> num list \<Rightarrow> int list \<Rightarrow> sim_state \<Rightarrow> (py_error + (bool \<times> sim_state)) option" where
  [code]: "simulate_loop total_packets total_data rcwnd working_binary s =
     (if loop_guard total_packets s
      then (case loop_body total_packets total_data rcwnd working_binary s of
              Inl e \<Rightarrow> Some (Inl e)
            | Inr (brk, s') \<Rightarrow>
                if brk then Some (Inr (True, s'))
                else simulate_loop total_packets total_data rcwnd working_binary s')
      else Some (Inr (False, s)))"


text \<open>
  Lines 153-159: the steps from the final \<^verbatim>\<open>t\<close> on and the steps marked lost get the
  send window -1.
\<close>

fun mark_lost :: "int list \<Rightarrow> int list \<Rightarrow> int list \<Rightarrow> py_error + int list" where
  "mark_lost sndwnd working_binary [] = Inr sndwnd"
| "mark_lost sndwnd working_binary (x # xs) =
     sum_bind (getitem working_binary x) (\<lambda>wb.
       if wb = - 1 then sum_bind (setitem sndwnd x (- 1)) (\<lambda>sndwnd'. mark_lost sndwnd' working_binary xs)
       else mark_lost sndwnd working_binary xs)"

definition finish :: "int list \<Rightarrow> sim_state \<Rightarrow> py_error + sim_state" where
  "finish working_binary s =
     sum_bind (assign_each (st_sndwnd s) (py_range (st_t s) 65) (- 1)) (\<lambda>sndwnd1.
     sum_bind (mark_lost sndwnd1 working_binary (py_range 0 65)) (\<lambda>sndwnd2.
       Inr (s\<lparr>st_sndwnd := sndwnd2, st_t := max (st_t s) 65\<rparr>)))"

text \<open>
  \<^verbatim>\<open>simulate_tcp_behavior\<close> (lines 95-172) up to the plot: the loss schedule is read from
  the operator, the loop runs, the send windows are finalised.
\<close>

definition simulate_tcp_behavior ::
  "rat list \<Rightarrow> int \<Rightarrow> int \<Rightarrow> rat \<Rightarrow> num \<Rightarrow> num list \<Rightarrow> num list \<Rightarrow> (py_error + sim_state) option" where
  "simulate_tcp_behavior inp total_data mss rtt total_packets ssthresh rcwnd =
     (case get_working_binary inp rtt of
        Inl e \<Rightarrow> Some (Inl e)
      | Inr working_binary \<Rightarrow>
          (case simulate_loop total_packets total_data rcwnd working_binary (init_state ssthresh) of
             None \<Rightarrow> None
           | Some (Inl e) \<Rightarrow> Some (Inl e)
           | Some (Inr (brk, s)) \<Rightarrow> Some (finish working_binary s)))"

section \<open>Quantities of one pass of the loop\<close>

text \<open>
  Names for what a pass computes from the state at its start: the send window of line 115,
  the float \<^verbatim>\<open>total_packets - total_sent\<close> and the flight size of line 116. \<open>finite_num\<close>
  says that \<^verbatim>\<open>int\<close> accepts a number, \<open>finite_pass\<close> that lines 115 and 116 raise nothing, and
  \<open>lists_65\<close> that the five lists have the 65 entries the program allocates.
\<close>

definition finite_num :: "num \<Rightarrow> bool" where
  "finite_num x = (case x of PInt k \<Rightarrow> True | PFloat r \<Rightarrow> \<not> is_inf r)"

definition window_at :: "num list \<Rightarrow> sim_state \<Rightarrow> int" where
  "window_at rcwnd s =
     min (trunc (val (rcwnd ! nat (st_t s)))) (trunc (val (st_cwnd s ! nat (st_t s))))"

definition remaining_at :: "num \<Rightarrow> sim_state \<Rightarrow> py_error + num" where
  "remaining_at total_packets s = py_sub total_packets (PInt (st_total_sent s))"

definition flight_at :: "num \<Rightarrow> num list \<Rightarrow> sim_state \<Rightarrow> int" where
  "flight_at total_packets rcwnd s =
     (case remaining_at total_packets s of
        Inl e \<Rightarrow> 0
      | Inr x \<Rightarrow> min (window_at rcwnd s) (trunc (val x)))"

definition finite_pass :: "num \<Rightarrow> num list \<Rightarrow> sim_state \<Rightarrow> bool" where
  "finite_pass total_packets rcwnd s =
     (finite_num (rcwnd ! nat (st_t s)) \<and> finite_num (st_cwnd s ! nat (st_t s))
      \<and> (case remaining_at total_packets s of Inl e \<Rightarrow> False | Inr x \<Rightarrow> finite_num x))"

definition lists_65 :: "num list \<Rightarrow> int list \<Rightarrow> sim_state \<Rightarrow> bool" where
  "lists_65 rcwnd working_binary s =
     (length rcwnd = 65 \<and> length working_binary = 65 \<and> length (st_cwnd s) = 65
      \<and> length (st_sndwnd s) = 65 \<and> length (st_ssthresh s) = 65)"

text \<open>
  The state that the pass on a lost step leaves behind (lines 144-151), and the state that
  the pass completing the transfer leaves behind (line 136).
\<close>

definition after_loss :: "num \<Rightarrow> int \<Rightarrow> num list \<Rightarrow> sim_state \<Rightarrow> sim_state" where
  "after_loss total_packets total_data rcwnd s =
     s\<lparr>st_cwnd := (st_cwnd s)[nat (st_t s + st_back_off s) := PInt 1],
       st_sndwnd := (st_sndwnd s)[nat (st_t s) := window_at rcwnd s],
       st_ssthresh := take (nat (st_t s + st_back_off s)) (st_ssthresh s) @
         replicate (65 - nat (st_t s + st_back_off s))
           (py_max (PInt 2) (PFloat (of_int (flight_at total_packets rcwnd s) / 2))),
       st_back_off := st_back_off s * 2,
       st_t := st_t s + st_back_off s,
       st_flight_size :=
         min ((st_sndwnd s)[nat (st_t s) := window_at rcwnd s] ! nat (st_t s + st_back_off s))
             (total_data - st_total_sent s)\<rparr>"

definition after_break :: "num \<Rightarrow> num list \<Rightarrow> sim_state \<Rightarrow> sim_state" where
  "after_break total_packets rcwnd s =
     s\<lparr>st_sndwnd := (st_sndwnd s)[nat (st_t s) := window_at rcwnd s],
       st_back_off := 2,
       st_total_sent := st_total_sent s + flight_at total_packets rcwnd s,
       st_flight_size := flight_at total_packets rcwnd s\<rparr>"

text \<open>
  What holds of the loss schedule of every run: every marker is 0 or -1, the two values
  that \<^verbatim>\<open>get_working_binary\<close> writes.
\<close>

definition markers :: "int list \<Rightarrow> bool" where
  "markers working_binary = list_all (\<lambda>m. m = 0 \<or> m = - 1) working_binary"

section \<open>Rounding to binary64\<close>

lemma round_half_even_of_int [simp]: "round_half_even (of_int k) = k"
  by (simp add: round_half_even_def)

lemma round_half_even_mono: "x \<le> y \<Longrightarrow> round_half_even x \<le> round_half_even y"
proof -
  assume xy: "x \<le> y"
  have fl: "\<lfloor>x\<rfloor> \<le> \<lfloor>y\<rfloor>" using xy by (rule floor_mono)
  have bx: "round_half_even x \<le> \<lfloor>x\<rfloor> + 1" and by': "\<lfloor>y\<rfloor> \<le> round_half_even y"
    by (simp_all add: round_half_even_def Let_def)
  show ?thesis
  proof (cases "\<lfloor>x\<rfloor> = \<lfloor>y\<rfloor>")
    case True
    then show ?thesis using xy by (auto simp: round_half_even_def Let_def)
  next
    case False
    then have "\<lfloor>x\<rfloor> + 1 \<le> \<lfloor>y\<rfloor>" using fl by simp
    then show ?thesis using bx by' by linarith
  qed
qed

lemma round_half_even_minus: "round_half_even (- y) = - round_half_even y"
proof (cases "y = of_int \<lfloor>y\<rfloor>")
  case True
  then obtain k where "y = of_int k" ..
  then have "- y = of_int (- k)" by simp
  then show ?thesis using \<open>y = of_int k\<close> by (simp only: round_half_even_of_int)
next
  case False
  then have "\<lceil>y\<rceil> = \<lfloor>y\<rfloor> + 1" by (simp add: ceiling_altdef)
  then have fl: "\<lfloor>- y\<rfloor> = - \<lfloor>y\<rfloor> - 1" by (simp add: ceiling_def)
  have "of_int \<lfloor>y\<rfloor> \<le> y" by simp
  then have d: "0 < y - of_int \<lfloor>y\<rfloor>" using False by linarith
  have d1: "y - of_int \<lfloor>y\<rfloor> < 1" by linarith
  define f where "f = \<lfloor>y\<rfloor>"
  define e where "e = y - of_int f"
  have y: "y = of_int f + e" by (simp add: e_def)
  have e: "0 < e" "e < 1" using d d1 by (simp_all add: e_def f_def)
  have a: "round_half_even y = (if e < 1 / 2 then f else if 1 / 2 < e then f + 1
                                else if even f then f else f + 1)"
    by (simp add: round_half_even_def Let_def e_def f_def)
  have "- y - of_int (- f - 1) = 1 - e" by (simp add: y)
  then have b: "round_half_even (- y) = (if 1 - e < 1 / 2 then - f - 1 else if 1 / 2 < 1 - e then - f
                                else if even (- f - 1) then - f - 1 else - f)"
    unfolding round_half_even_def Let_def fl f_def [symmetric] by simp
  show ?thesis unfolding a b using e by auto
qed

lemma round_half_even_near: "\<bar>of_int (round_half_even y) - y\<bar> \<le> 1 / 2"
proof -
  define e where "e = y - of_int \<lfloor>y\<rfloor>"
  have "of_int \<lfloor>y\<rfloor> \<le> y" "y < of_int \<lfloor>y\<rfloor> + 1" by linarith+
  then have e: "0 \<le> e" "e < 1" by (simp_all add: e_def)
  have "of_int (round_half_even y) - y =
          (if e < 1 / 2 then - e else if 1 / 2 < e then 1 - e
           else if even \<lfloor>y\<rfloor> then - e else 1 - e)"
    by (simp add: round_half_even_def Let_def e_def)
  then show ?thesis using e by (auto simp: abs_if split: if_splits)
qed

lemma binade_below_range: "- 1022 \<le> binade_below n x \<and> binade_below n x \<le> int n - 1022"
  by (induction n) auto

lemma binade_below_lower: "binade_below n x = - 1022 \<or> 2 powi (binade_below n x) \<le> \<bar>x\<bar>"
  by (induction n) auto

lemma binade_below_upper:
  "\<bar>x\<bar> < 2 powi (int n - 1022 + 1) \<Longrightarrow> \<bar>x\<bar> < 2 powi (binade_below n x + 1)"
proof (induction n)
  case 0
  then show ?case by simp
next
  case (Suc n)
  show ?case
  proof (cases "2 powi (int (Suc n) - 1022) \<le> \<bar>x\<bar>")
    case True
    then show ?thesis using Suc.prems by simp
  next
    case False
    then have "\<bar>x\<bar> < 2 powi (int n - 1022 + 1)" by (simp add: add.commute)
    then show ?thesis using Suc.IH False by simp
  qed
qed

lemma binade_below_mono: "\<bar>x\<bar> \<le> \<bar>y\<bar> \<Longrightarrow> binade_below n x \<le> binade_below n y"
proof (induction n)
  case 0
  then show ?case by simp
next
  case (Suc n)
  have "binade_below n x \<le> int n - 1022" using binade_below_range by blast
  then show ?case using Suc by auto
qed

lemma two_powi_less: "(2::rat) powi a < 2 powi b \<Longrightarrow> a < b"
proof (rule ccontr)
  assume l: "(2::rat) powi a < 2 powi b" and "\<not> a < b"
  then have "b \<le> a" by simp
  then have "(2::rat) powi b \<le> 2 powi a" by (intro power_int_increasing) simp_all
  then show False using l by simp
qed

lemma binade_scan_below:
  "p = 2 powi (int n - 1022) \<Longrightarrow> binade_scan n p x = binade_below n x"
proof (induction n arbitrary: p)
  case 0
  then show ?case by simp
next
  case (Suc n)
  have "(2::rat) powi (int (Suc n) - 1022) = 2 powi (int n - 1022 + 1)" by (simp add: add.commute)
  also have "\<dots> = 2 powi (int n - 1022) * 2" by (rule power_int_add_1) simp
  finally have "p / 2 = 2 powi (int n - 1022)" using Suc.prems by simp
  then have "binade_scan n (p / 2) x = binade_below n x" by (rule Suc.IH)
  then show ?case using Suc.prems by simp
qed

lemma binade_as_below: "binade x = binade_below 2045 x"
  unfolding binade_def by (rule binade_scan_below) simp

lemma binade_range: "- 1022 \<le> binade x" "binade x \<le> 1023"
  using binade_below_range [of 2045 x] by (simp_all add: binade_as_below)

lemma binade_lower: "binade x = - 1022 \<or> 2 powi (binade x) \<le> \<bar>x\<bar>"
  unfolding binade_as_below by (rule binade_below_lower)

lemma binade_upper: "\<bar>x\<bar> < 2 ^ 1024 \<Longrightarrow> \<bar>x\<bar> < 2 powi (binade x + 1)"
  unfolding binade_as_below using binade_below_upper [of x 2045] by simp

lemma binade_mono: "\<bar>x\<bar> \<le> \<bar>y\<bar> \<Longrightarrow> binade x \<le> binade y"
  unfolding binade_as_below by (rule binade_below_mono)

lemma binade_minus [simp]: "binade (- x) = binade x"
proof -
  have "binade_below n (- x) = binade_below n x" for n by (induction n) simp_all
  then show ?thesis by (simp add: binade_as_below)
qed

lemma binade_le: "- 1022 \<le> e \<Longrightarrow> \<bar>x\<bar> < 2 powi (e + 1) \<Longrightarrow> binade x \<le> e"
proof -
  assume e: "- 1022 \<le> e" and x: "\<bar>x\<bar> < 2 powi (e + 1)"
  from binade_lower [of x] show ?thesis
  proof
    assume "binade x = - 1022" then show ?thesis using e by simp
  next
    assume "2 powi binade x \<le> \<bar>x\<bar>"
    then have "(2::rat) powi binade x < 2 powi (e + 1)" using x by simp
    then have "binade x < e + 1" by (rule two_powi_less)
    then show ?thesis by simp
  qed
qed

lemma binade_eq:
  assumes "- 1022 \<le> e" "e \<le> 1023" "2 powi e \<le> \<bar>x\<bar>" "\<bar>x\<bar> < 2 powi (e + 1)"
  shows "binade x = e"
proof -
  have le: "binade x \<le> e" using assms(1,4) by (rule binade_le)
  have "\<bar>x\<bar> < 2 ^ 1024"
  proof -
    have "(2::rat) powi (e + 1) \<le> 2 powi 1024"
      using assms(2) by (intro power_int_increasing) simp_all
    then show ?thesis using assms(4) by simp
  qed
  then have "\<bar>x\<bar> < 2 powi (binade x + 1)" by (rule binade_upper)
  then have "(2::rat) powi e < 2 powi (binade x + 1)" using assms(3) by simp
  then have "e < binade x + 1" by (rule two_powi_less)
  then show ?thesis using le by simp
qed

lemma fl_eq:
  assumes "- 1022 \<le> e" "e \<le> 1023" "2 powi e \<le> \<bar>x\<bar>" "\<bar>x\<bar> < 2 powi (e + 1)"
  shows "fl x = of_int (round_half_even (x / 2 powi (e - 52))) * 2 powi (e - 52)"
  unfolding fl_def binade_eq [OF assms] ..

lemma fl_minus: "fl (- x) = - fl x"
  by (simp add: fl_def round_half_even_minus)

lemma fl_0 [simp]: "fl 0 = 0"
  using round_half_even_of_int [of 0] by (simp add: fl_def)

lemma fl_nonneg: "0 \<le> x \<Longrightarrow> 0 \<le> fl x"
proof -
  assume "0 \<le> x"
  then have "0 \<le> x / 2 powi (binade x - 52)" by simp
  then have "round_half_even (of_int 0) \<le> round_half_even (x / 2 powi (binade x - 52))"
    by (intro round_half_even_mono) simp
  then have "0 \<le> round_half_even (x / 2 powi (binade x - 52))"
    by (simp only: round_half_even_of_int)
  then show ?thesis by (simp add: fl_def)
qed

lemma fl_exact:
  assumes x: "x = of_int m * 2 powi j" and b: "binade x \<le> j + 52"
  shows "fl x = x"
proof -
  let ?q = "(2::rat) powi (binade x - 52)"
  have q: "?q \<noteq> 0" by simp
  have "x / ?q = of_int m * (2 powi j / ?q)" by (simp add: x)
  also have "2 powi j / ?q = (2::rat) powi (j - (binade x - 52))"
    by (simp add: power_int_diff)
  also have "\<dots> = 2 ^ nat (j - (binade x - 52))"
    using b by (simp add: power_int_nonneg_exp)
  finally have "x / ?q = of_int (m * 2 ^ nat (j - (binade x - 52)))" by simp
  then have "of_int (round_half_even (x / ?q)) = x / ?q"
    by (simp only: round_half_even_of_int)
  then show ?thesis by (simp add: fl_def)
qed

lemma fl_exact':
  assumes x: "x = of_int m * 2 powi j" and j: "- 1074 \<le> j" and s: "\<bar>x\<bar> < 2 powi (j + 53)"
  shows "fl x = x"
proof -
  have "j + 53 = j + 52 + 1" by simp
  then have "\<bar>x\<bar> < 2 powi (j + 52 + 1)" using s by (simp only:)
  then have "binade x \<le> j + 52" using j by (intro binade_le) simp_all
  with x show ?thesis by (rule fl_exact)
qed

lemma fl_int: "\<bar>k\<bar> \<le> 2 ^ 53 \<Longrightarrow> fl (of_int k) = of_int k"
proof -
  assume k: "\<bar>k\<bar> \<le> 2 ^ 53"
  show ?thesis
  proof (cases "\<bar>k\<bar> = 2 ^ 53")
    case True
    then have "k = 2 ^ 53 \<or> k = - (2 ^ 53)" by linarith
    then have e: "(of_int k :: rat) = of_int (k div 2) * 2 powi 1" by auto
    have "\<bar>of_int k :: rat\<bar> = 2 ^ 53" using \<open>k = 2 ^ 53 \<or> k = - (2 ^ 53)\<close> by auto
    then have "\<bar>of_int k :: rat\<bar> < 2 powi (1 + 53)" by simp
    with e show ?thesis by (intro fl_exact' [where m = "k div 2" and j = 1]) simp_all
  next
    case False
    then have "\<bar>k\<bar> < 2 ^ 53" using k by simp
    then have "(of_int \<bar>k\<bar> :: rat) < of_int (2 ^ 53)" by (simp only: of_int_less_iff)
    then have "\<bar>of_int k :: rat\<bar> < 2 powi (0 + 53)" by simp
    then show ?thesis by (intro fl_exact' [where m = k and j = 0]) simp_all
  qed
qed

lemma fl_1 [simp]: "fl 1 = 1"
  using fl_int [of 1] by simp

lemma binade_top: "2 powi 1023 \<le> \<bar>x\<bar> \<Longrightarrow> binade x = 1023"
proof -
  assume a: "2 powi 1023 \<le> \<bar>x\<bar>"
  have "binade_below (Suc 2044) x =
          (if 2 powi (int (Suc 2044) - 1022) \<le> \<bar>x\<bar> then int (Suc 2044) - 1022
           else binade_below 2044 x)"
    by (rule binade_below.simps)
  moreover have "int (Suc 2044) - 1022 = 1023" "Suc 2044 = 2045" by simp_all
  ultimately show ?thesis using a by (simp only: binade_as_below if_True)
qed

lemma binade_upper_below: "binade x < 1023 \<Longrightarrow> \<bar>x\<bar> < 2 powi (binade x + 1)"
proof -
  assume b: "binade x < 1023"
  have "\<bar>x\<bar> < 2 ^ 1024"
  proof (rule ccontr)
    assume "\<not> \<bar>x\<bar> < 2 ^ 1024"
    then have "(2::rat) ^ 1024 \<le> \<bar>x\<bar>" by simp
    moreover have "(2::rat) powi 1023 \<le> 2 ^ 1024" by simp
    ultimately have "(2::rat) powi 1023 \<le> \<bar>x\<bar>" by (rule order_trans [rotated])
    then have "binade x = 1023" by (rule binade_top)
    then show False using b by simp
  qed
  then show ?thesis by (rule binade_upper)
qed

lemma fl_le_top:
  assumes "0 \<le> x" "binade x < 1023"
  shows "fl x \<le> 2 powi (binade x + 1)"
proof -
  let ?a = "binade x"
  have ux: "x < 2 powi (?a + 1)" using binade_upper_below [OF assms(2)] assms(1) by simp
  have "x / 2 powi (?a - 52) \<le> 2 powi (?a + 1) / 2 powi (?a - 52)"
    using ux by (simp add: divide_right_mono)
  also have "(2::rat) powi (?a + 1) / 2 powi (?a - 52) = of_int (2 ^ 53)"
    by (simp add: power_int_diff [symmetric])
  finally have "round_half_even (x / 2 powi (?a - 52)) \<le> round_half_even (of_int (2 ^ 53))"
    by (rule round_half_even_mono)
  then have "round_half_even (x / 2 powi (?a - 52)) \<le> 2 ^ 53"
    by (simp only: round_half_even_of_int)
  then have "(of_int (round_half_even (x / 2 powi (?a - 52))) :: rat) \<le> of_int (2 ^ 53)"
    by (simp only: of_int_le_iff)
  then have "fl x \<le> of_int (2 ^ 53) * 2 powi (?a - 52)"
    unfolding fl_def by (intro mult_right_mono) simp_all
  also have "of_int (2 ^ 53) * 2 powi (?a - 52) = (2::rat) powi (?a + 1)"
    using power_int_add [of "2::rat" 53 "?a - 52"] by (simp add: add.commute)
  finally show ?thesis .
qed

lemma fl_ge_bottom:
  assumes "2 powi binade y \<le> y"
  shows "2 powi binade y \<le> fl y"
proof -
  let ?b = "binade y"
  have "(2::rat) powi ?b / 2 powi (?b - 52) \<le> y / 2 powi (?b - 52)"
    using assms by (simp add: divide_right_mono)
  moreover have "(2::rat) powi ?b / 2 powi (?b - 52) = of_int (2 ^ 52)"
    by (simp add: power_int_diff [symmetric])
  ultimately have "round_half_even (of_int (2 ^ 52)) \<le> round_half_even (y / 2 powi (?b - 52))"
    by (intro round_half_even_mono) simp
  then have "2 ^ 52 \<le> round_half_even (y / 2 powi (?b - 52))"
    by (simp only: round_half_even_of_int)
  then have "(of_int (2 ^ 52) :: rat) \<le> of_int (round_half_even (y / 2 powi (?b - 52)))"
    by (simp only: of_int_le_iff)
  then have "of_int (2 ^ 52) * 2 powi (?b - 52) \<le> fl y"
    unfolding fl_def by (intro mult_right_mono) simp_all
  moreover have "of_int (2 ^ 52) * 2 powi (?b - 52) = (2::rat) powi ?b"
    using power_int_add [of "2::rat" 52 "?b - 52"] by simp
  ultimately show ?thesis by simp
qed

lemma fl_mono_nonneg:
  assumes "0 \<le> x" "x \<le> y"
  shows "fl x \<le> fl y"
proof (cases "binade x = binade y")
  case True
  have "x / 2 powi (binade y - 52) \<le> y / 2 powi (binade y - 52)"
    using assms by (simp add: divide_right_mono)
  then have "round_half_even (x / 2 powi (binade y - 52)) \<le> round_half_even (y / 2 powi (binade y - 52))"
    by (rule round_half_even_mono)
  then show ?thesis by (simp add: fl_def True mult_right_mono)
next
  case False
  have xy: "\<bar>x\<bar> \<le> \<bar>y\<bar>" using assms by simp
  then have lt: "binade x < binade y" using False binade_mono [OF xy] by simp
  let ?a = "binade x" and ?b = "binade y"
  have b: "?b \<le> 1023" "- 1022 \<le> ?a" by (rule binade_range)+
  have fx: "fl x \<le> 2 powi (?a + 1)" using assms(1) lt b by (intro fl_le_top) simp_all
  have "2 powi ?b \<le> y" using binade_lower [of y] lt b assms by auto
  then have fy: "2 powi ?b \<le> fl y" by (rule fl_ge_bottom)
  have "(2::rat) powi (?a + 1) \<le> 2 powi ?b"
    using lt by (intro power_int_increasing) simp_all
  then show ?thesis using fx fy by linarith
qed

lemma fl_mono: "x \<le> y \<Longrightarrow> fl x \<le> fl y"
proof -
  assume xy: "x \<le> y"
  consider "0 \<le> x" | "x < 0" "0 \<le> y" | "y < 0" by linarith
  then show ?thesis
  proof cases
    case 1
    then show ?thesis using xy by (rule fl_mono_nonneg)
  next
    case 2
    have "0 \<le> fl (- x)" using 2 by (intro fl_nonneg) simp
    then have "fl x \<le> 0" by (simp add: fl_minus)
    moreover have "0 \<le> fl y" using 2 by (intro fl_nonneg)
    ultimately show ?thesis by simp
  next
    case 3
    have "fl (- y) \<le> fl (- x)" using 3 xy by (intro fl_mono_nonneg) simp_all
    then show ?thesis by (simp add: fl_minus)
  qed
qed

section \<open>Subscripts\<close>

lemma sum_bind_Inr [simp]: "sum_bind (Inr x) f = f x"
  by (simp add: sum_bind_def)

lemma sum_bind_Inl [simp]: "sum_bind (Inl e) f = Inl e"
  by (simp add: sum_bind_def)

lemma sum_bind_eq_Inr: "sum_bind m f = Inr y \<longleftrightarrow> (\<exists>x. m = Inr x \<and> f x = Inr y)"
  by (cases m) simp_all

lemma getitem_nth: "0 \<le> i \<Longrightarrow> i < int (length xs) \<Longrightarrow> getitem xs i = Inr (xs ! nat i)"
  by (simp add: getitem_def subscript_def)

lemma setitem_update: "0 \<le> i \<Longrightarrow> i < int (length xs) \<Longrightarrow> setitem xs i v = Inr (xs[nat i := v])"
  by (simp add: setitem_def subscript_def)

lemma getitem_beyond: "int (length xs) \<le> i \<Longrightarrow> getitem xs i = Inl IndexError"
  by (simp add: getitem_def subscript_def)

lemma setitem_beyond: "int (length xs) \<le> i \<Longrightarrow> setitem xs i v = Inl IndexError"
  by (simp add: setitem_def subscript_def)

lemma setitem_length: "setitem xs i v = Inr ys \<Longrightarrow> length ys = length xs"
  by (auto simp: setitem_def split: option.splits)


lemma assign_each_length: "assign_each xs idxs v = Inr ys \<Longrightarrow> length ys = length xs"
proof (induction idxs arbitrary: xs)
  case Nil
  then show ?case by simp
next
  case (Cons i idxs)
  then obtain xs' where a: "setitem xs i v = Inr xs'" and b: "assign_each xs' idxs v = Inr ys"
    by (auto simp: sum_bind_eq_Inr)
  show ?case using Cons.IH [OF b] setitem_length [OF a] by simp
qed


section \<open>What every pass keeps\<close>

lemma loop_body_Inr:
  assumes "loop_body tp td rcwnd wb s = Inr (brk, s')"
  obtains (normal) sndwnd1 flight where
      "window_and_flight tp rcwnd s = Inr (sndwnd1, flight)" "getitem wb (st_t s) = Inr 0"
      "normal_step tp rcwnd s sndwnd1 flight = Inr (brk, s')"
  | (loss) sndwnd1 flight where
      "window_and_flight tp rcwnd s = Inr (sndwnd1, flight)" "getitem wb (st_t s) = Inr (- 1)"
      "loss_step td s sndwnd1 flight = Inr (brk, s')"
  | (other) sndwnd1 flight m where
      "window_and_flight tp rcwnd s = Inr (sndwnd1, flight)" "getitem wb (st_t s) = Inr m"
      "m \<noteq> 0" "m \<noteq> - 1" "\<not> brk" "s' = s\<lparr>st_sndwnd := sndwnd1, st_flight_size := flight\<rparr>"
proof -
  from assms obtain sndwnd1 flight m where
    w: "window_and_flight tp rcwnd s = Inr (sndwnd1, flight)" and g: "getitem wb (st_t s) = Inr m"
    and r: "(if m = 0 then normal_step tp rcwnd s sndwnd1 flight
             else if m = - 1 then loss_step td s sndwnd1 flight
             else Inr (False, s\<lparr>st_sndwnd := sndwnd1, st_flight_size := flight\<rparr>)) = Inr (brk, s')"
    unfolding loop_body_def by (auto simp: sum_bind_eq_Inr)
  consider "m = 0" | "m = - 1" | "m \<noteq> 0" "m \<noteq> - 1" by blast
  then show thesis
  proof cases
    case 1
    then show ?thesis using w g r normal by simp
  next
    case 2
    then show ?thesis using w g r loss by simp
  next
    case 3
    then show ?thesis using w g r other [of sndwnd1 flight m] by simp
  qed
qed

lemma normal_step_Inr:
  assumes "normal_step tp rcwnd s sndwnd1 flight = Inr (brk, s')"
  obtains (complete) "brk" "of_int (st_total_sent s + flight) = val tp"
      "s' = s\<lparr>st_sndwnd := sndwnd1, st_back_off := 2, st_total_sent := st_total_sent s + flight,
               st_flight_size := flight\<rparr>"
  | (more) res cwnd1 sndwnd2 cwnd2 where "\<not> brk" "of_int (st_total_sent s + flight) \<noteq> val tp"
      "update_cwnd (st_cwnd s) (st_t s + 1) sndwnd1 (st_ssthresh s) rcwnd = Inr (res, cwnd1, sndwnd2)"
      "setitem cwnd1 (st_t s + 1) res = Inr cwnd2"
      "s' = s\<lparr>st_cwnd := cwnd2, st_sndwnd := sndwnd2, st_back_off := 2,
               st_total_sent := st_total_sent s + flight, st_t := st_t s + 1,
               st_flight_size := flight\<rparr>"
proof (cases "of_int (st_total_sent s + flight) = val tp")
  case True
  then show ?thesis using assms complete by (simp add: normal_step_def Let_def)
next
  case False
  then obtain res cwnd1 sndwnd2 cwnd2 where
    "update_cwnd (st_cwnd s) (st_t s + 1) sndwnd1 (st_ssthresh s) rcwnd = Inr (res, cwnd1, sndwnd2)"
    "setitem cwnd1 (st_t s + 1) res = Inr cwnd2"
    "Inr (False, s\<lparr>st_cwnd := cwnd2, st_sndwnd := sndwnd2, st_back_off := 2,
               st_total_sent := st_total_sent s + flight, st_t := st_t s + 1,
               st_flight_size := flight\<rparr>) = (Inr (brk, s') :: py_error + (bool \<times> sim_state))"
    using assms by (auto simp: normal_step_def Let_def sum_bind_eq_Inr)
  then show ?thesis using more False by simp
qed

lemma loss_step_Inr:
  assumes "loss_step td s sndwnd1 flight = Inr (brk, s')"
  obtains cwnd1 ssthresh1 sw' where "\<not> brk"
      "setitem (st_cwnd s) (st_t s + st_back_off s) (PInt 1) = Inr cwnd1"
      "(if st_t s + st_back_off s < 65
        then sum_bind (py_div (PInt flight) (PInt 2)) (\<lambda>half.
               assign_each (st_ssthresh s) (py_range (st_t s + st_back_off s) 65)
                 (py_max (PInt 2) half))
        else Inr (st_ssthresh s)) = Inr ssthresh1"
      "getitem sndwnd1 (st_t s + st_back_off s) = Inr sw'"
      "s' = s\<lparr>st_cwnd := cwnd1, st_sndwnd := sndwnd1, st_ssthresh := ssthresh1,
               st_back_off := st_back_off s * 2, st_t := st_t s + st_back_off s,
               st_flight_size := min sw' (td - st_total_sent s)\<rparr>"
  using assms unfolding loss_step_def Let_def sum_bind_eq_Inr by auto


lemma pass_ssthresh_kept:
  assumes "loop_body tp td rcwnd wb s = Inr (brk, s')" "getitem wb (st_t s) \<noteq> Inr (- 1)"
  shows "st_ssthresh s' = st_ssthresh s"
  using assms(1)
proof (cases rule: loop_body_Inr)
  case (normal sndwnd1 flight)
  from normal(3) show ?thesis by (cases rule: normal_step_Inr) simp_all
next
  case (loss sndwnd1 flight)
  then show ?thesis using assms(2) by simp
next
  case (other sndwnd1 flight m)
  then show ?thesis by simp
qed


lemma pass_break:
  assumes "loop_body tp td rcwnd wb s = Inr (True, s')"
  shows "of_int (st_total_sent s') = val tp \<and> getitem wb (st_t s) = Inr 0"
  using assms
proof (cases rule: loop_body_Inr)
  case (normal sndwnd1 flight)
  from normal(3) have "of_int (st_total_sent s') = val tp" by (cases rule: normal_step_Inr) simp_all
  then show ?thesis using normal(2) by simp
next
  case (loss sndwnd1 flight)
  from loss(3) show ?thesis by (cases rule: loss_step_Inr) simp
next
  case (other sndwnd1 flight m)
  then show ?thesis by simp
qed


section \<open>Numbers of the program\<close>

lemma fl_numeral [simp]: "numeral n \<le> (2::int) ^ 53 \<Longrightarrow> fl (numeral n) = numeral n"
  using fl_int [of "numeral n"] by simp

lemma fl_neg_numeral [simp]: "numeral n \<le> (2::int) ^ 53 \<Longrightarrow> fl (- numeral n) = - numeral n"
  using fl_numeral [of n] by (simp add: fl_minus)

lemma fl_value:
  assumes "- 1022 \<le> e" "e \<le> 1023" "2 powi e \<le> \<bar>x\<bar>" "\<bar>x\<bar> < 2 powi (e + 1)"
    and "round_half_even (x / 2 powi (e - 52)) = k" "of_int k * 2 powi (e - 52) = r"
  shows "fl x = r"
  using fl_eq [OF assms(1-4)] assms(5,6) by simp

lemma fl_half: "\<bar>k\<bar> < 2 ^ 53 \<Longrightarrow> fl (of_int k / 2) = of_int k / 2"
proof -
  assume "\<bar>k\<bar> < 2 ^ 53"
  then have "(of_int \<bar>k\<bar> :: rat) < of_int (2 ^ 53)" by (simp only: of_int_less_iff)
  then have "\<bar>of_int k / 2 :: rat\<bar> < 2 powi (- 1 + 53)" by simp
  then show ?thesis by (intro fl_exact' [where m = k and j = "- 1"]) simp_all
qed

lemma is_inf_small: "\<bar>x\<bar> \<le> 2 ^ 1023 \<Longrightarrow> \<not> is_inf x"
proof -
  assume "\<bar>x\<bar> \<le> 2 ^ 1023"
  moreover have "(2::rat) ^ 1023 < 2 ^ 1024" by simp
  ultimately show ?thesis unfolding is_inf_def by linarith
qed

lemma fl_le_pow: "x \<le> 2 ^ 1023 \<Longrightarrow> fl x \<le> 2 ^ 1023"
proof -
  assume x: "x \<le> 2 ^ 1023"
  have "fl (2 ^ 1023) = (2::rat) ^ 1023"
    using binade_range(2) [of "2 ^ 1023"]
    by (intro fl_exact [where m = 1 and j = 1023]) simp_all
  then show ?thesis using fl_mono [OF x] by simp
qed

lemma py_int_finite: "finite_num x \<Longrightarrow> py_int x = Inr (trunc (val x))"
  by (cases x) (simp_all add: py_int_def finite_num_def trunc_def)

lemma trunc_of_int [simp]: "trunc (of_int k) = k"
  by (simp add: trunc_def)

lemma trunc_mono: "x \<le> y \<Longrightarrow> trunc x \<le> trunc y"
proof -
  assume xy: "x \<le> y"
  consider "0 \<le> x" | "x < 0" "0 \<le> y" | "y < 0" by linarith
  then show ?thesis
  proof cases
    case 1
    then show ?thesis using xy by (simp add: trunc_def floor_mono)
  next
    case 2
    have "\<lceil>x\<rceil> \<le> 0" using 2 by (simp add: ceiling_le_iff)
    moreover have "0 \<le> \<lfloor>y\<rfloor>" using 2 by simp
    ultimately have "\<lceil>x\<rceil> \<le> \<lfloor>y\<rfloor>" by (rule order_trans)
    then show ?thesis using 2 by (simp add: trunc_def)
  next
    case 3
    then show ?thesis using xy by (simp add: trunc_def ceiling_mono)
  qed
qed

lemma trunc_nonneg: "0 \<le> x \<Longrightarrow> 0 \<le> trunc x"
  by (simp add: trunc_def)

lemma trunc_le: "0 \<le> x \<Longrightarrow> of_int (trunc x) \<le> x"
  by (simp add: trunc_def)

lemma val_py_max [simp]: "val (py_max x y) = max (val x) (val y)"
  by (simp add: py_max_def py_lt_def max_def)

section \<open>Closed forms of one pass\<close>

lemma assign_each_fold:
  "list_all (\<lambda>i. 0 \<le> i \<and> i < int (length xs)) idxs \<Longrightarrow>
   assign_each xs idxs v = Inr (fold (\<lambda>i ys. ys[nat i := v]) idxs xs)"
  by (induction idxs arbitrary: xs) (simp_all add: setitem_update)

lemma fold_update_length: "length (fold (\<lambda>i ys. ys[nat i := v]) idxs xs) = length xs"
  by (induction idxs arbitrary: xs) simp_all

lemma fold_update_nth:
  "list_all (\<lambda>i. 0 \<le> i) idxs \<Longrightarrow> j < length xs \<Longrightarrow>
   fold (\<lambda>i ys. ys[nat i := v]) idxs xs ! j = (if int j \<in> set idxs then v else xs ! j)"
proof (induction idxs arbitrary: xs)
  case Nil
  then show ?case by simp
next
  case (Cons i idxs)
  have "fold (\<lambda>i ys. ys[nat i := v]) idxs (xs[nat i := v]) ! j =
        (if int j \<in> set idxs then v else xs[nat i := v] ! j)"
    using Cons.IH [of "xs[nat i := v]"] Cons.prems by simp
  moreover have "xs[nat i := v] ! j = (if int j = i then v else xs ! j)"
    using Cons.prems by (auto simp: nth_list_update)
  ultimately show ?case by auto
qed

lemma assign_each_range:
  assumes "0 \<le> a" "a \<le> b" "b \<le> int (length xs)"
  shows "assign_each xs (py_range a b) v =
         Inr (take (nat a) xs @ replicate (nat (b - a)) v @ drop (nat b) xs)"
proof -
  let ?f = "fold (\<lambda>i ys. ys[nat i := v]) (py_range a b) xs"
  have all: "list_all (\<lambda>i. 0 \<le> i \<and> i < int (length xs)) (py_range a b)"
    using assms by (auto simp: py_range_def list_all_iff)
  have nonneg: "list_all (\<lambda>i. 0 \<le> i) (py_range a b)"
    using assms by (auto simp: py_range_def list_all_iff)
  have "?f = take (nat a) xs @ replicate (nat (b - a)) v @ drop (nat b) xs"
  proof (rule nth_equalityI)
    show "length ?f = length (take (nat a) xs @ replicate (nat (b - a)) v @ drop (nat b) xs)"
      using assms by (auto simp: fold_update_length)
  next
    fix j assume "j < length ?f"
    then have j: "j < length xs" by (simp add: fold_update_length)
    have "?f ! j = (if a \<le> int j \<and> int j < b then v else xs ! j)"
      using fold_update_nth [OF nonneg j, of v] by (auto simp: py_range_def)
    also have "\<dots> = (take (nat a) xs @ replicate (nat (b - a)) v @ drop (nat b) xs) ! j"
    proof -
      have ab: "nat a + nat (b - a) = nat b" using assms by linarith
      have "\<not> int j < b \<Longrightarrow> nat b + j - nat b = j" by simp
      then show ?thesis using assms j ab by (auto simp: nth_append min_def)
    qed
    finally show "?f ! j = (take (nat a) xs @ replicate (nat (b - a)) v @ drop (nat b) xs) ! j" .
  qed
  then show ?thesis using assign_each_fold [OF all, of v] by simp
qed

lemma window_and_flight_eq:
  assumes len: "lists_65 rcwnd wb s" and t: "0 \<le> st_t s" "st_t s < 65"
    and fin: "finite_pass tp rcwnd s"
  shows "window_and_flight tp rcwnd s =
         Inr ((st_sndwnd s)[nat (st_t s) := window_at rcwnd s], flight_at tp rcwnd s)"
proof -
  from fin obtain x where r: "py_sub tp (PInt (st_total_sent s)) = Inr x" and x: "finite_num x"
    and a: "finite_num (rcwnd ! nat (st_t s))" and b: "finite_num (st_cwnd s ! nat (st_t s))"
    by (auto simp: finite_pass_def remaining_at_def split: sum.splits)
  have f: "flight_at tp rcwnd s = min (window_at rcwnd s) (trunc (val x))"
    by (simp add: flight_at_def remaining_at_def r)
  show ?thesis
    unfolding window_and_flight_def f
    using len t r
    by (simp add: lists_65_def getitem_nth setitem_update py_int_finite [OF a]
        py_int_finite [OF b] py_int_finite [OF x] window_at_def)
qed

lemma loss_pass:
  assumes len: "lists_65 rcwnd wb s" and t: "0 \<le> st_t s" "st_t s < 65"
    and fin: "finite_pass tp rcwnd s"
    and wb: "wb ! nat (st_t s) = - 1"
    and t': "0 \<le> st_t s + st_back_off s" "st_t s + st_back_off s < 65"
    and f: "\<bar>flight_at tp rcwnd s\<bar> < 2 ^ 53"
  shows "loop_body tp td rcwnd wb s = Inr (False, after_loss tp td rcwnd s)"
proof -
  let ?f = "flight_at tp rcwnd s"
  have h: "fl (of_int ?f / 2) = of_int ?f / 2" using f by (rule fl_half)
  have "\<bar>of_int ?f / 2 :: rat\<bar> \<le> 2 ^ 1023"
  proof -
    have "(of_int \<bar>?f\<bar> :: rat) < of_int (2 ^ 53)" using f by (simp only: of_int_less_iff)
    then have "\<bar>of_int ?f / 2 :: rat\<bar> < 2 ^ 53" by simp
    moreover have "(2::rat) ^ 53 \<le> 2 ^ 1023" by simp
    ultimately show ?thesis by linarith
  qed
  then have i: "\<not> is_inf (of_int ?f / 2)" by (rule is_inf_small)
  have d: "py_div (PInt ?f) (PInt 2) = Inr (PFloat (of_int ?f / 2))"
    by (simp add: py_div_def h i)
  have a: "assign_each (st_ssthresh s) (py_range (st_t s + st_back_off s) 65)
             (py_max (PInt 2) (PFloat (of_int ?f / 2))) =
           Inr (take (nat (st_t s + st_back_off s)) (st_ssthresh s) @
                replicate (65 - nat (st_t s + st_back_off s))
                  (py_max (PInt 2) (PFloat (of_int ?f / 2))))"
    using assign_each_range [of "st_t s + st_back_off s" 65 "st_ssthresh s"] len t'
    by (simp add: lists_65_def nat_diff_distrib)
  show ?thesis
    unfolding loop_body_def window_and_flight_eq [OF len t fin] loss_step_def after_loss_def
    using len t wb t' a d
    by (simp add: lists_65_def getitem_nth setitem_update Let_def)
qed

lemma break_pass:
  assumes len: "lists_65 rcwnd wb s" and t: "0 \<le> st_t s" "st_t s < 65"
    and fin: "finite_pass tp rcwnd s"
    and wb: "wb ! nat (st_t s) = 0"
    and full: "of_int (st_total_sent s + flight_at tp rcwnd s) = val tp"
  shows "loop_body tp td rcwnd wb s = Inr (True, after_break tp rcwnd s)"
  unfolding loop_body_def window_and_flight_eq [OF len t fin] normal_step_def after_break_def
  using len t wb full
  by (simp add: lists_65_def getitem_nth Let_def)

lemma revised_nth:
  "length xs = 65 \<Longrightarrow> n \<le> j \<Longrightarrow> j < 65 \<Longrightarrow> (take n xs @ replicate (65 - n) v) ! j = v"
  by (simp add: nth_append)

lemma kept_nth:
  "length xs = 65 \<Longrightarrow> j < n \<Longrightarrow> n < 65 \<Longrightarrow> (take n xs @ replicate (65 - n) v) ! j = xs ! j"
  by (simp add: nth_append)

lemma after_loss_ssthresh:
  "st_ssthresh (after_loss tp td rcwnd s) =
     take (nat (st_t s + st_back_off s)) (st_ssthresh s) @
     replicate (65 - nat (st_t s + st_back_off s))
       (py_max (PInt 2) (PFloat (of_int (flight_at tp rcwnd s) / 2)))"
  by (simp add: after_loss_def)

lemma fl_one_half [simp]: "fl (1 / 2) = 1 / 2"
  using fl_half [of 1] by simp

lemma fl_minus_one [simp]: "fl (- 1) = - 1"
  using fl_minus [of 1] by simp

lemmas py_eval = py_div_def py_sub_def py_add_def to_float_def py_int_def py_lt_def is_inf_def
  trunc_def finite_num_def

section \<open>The loss schedule and the horizon\<close>

text \<open>
  Claim C5 says that schedule construction never uses a step index outside \<open>0..64\<close> as a
  subscript. \<^verbatim>\<open>get_working_binary\<close> does: with a round trip time of 1, the interval from 64 to
  66 makes line 65 write \<^verbatim>\<open>working_binary[65]\<close>, which raises \<^verbatim>\<open>IndexError\<close>; and the interval
  from -1 to 0 makes it write \<^verbatim>\<open>working_binary[-1]\<close>, which Python counts from the end of the
  list, so that step 64 is marked lost. (\<^verbatim>\<open>update_rcwnd\<close> bounds its range by 65 from above.)
\<close>

theorem schedule_index_escapes:
  "get_working_binary [64, 66, 101] 1 = Inl IndexError
   \<and> get_working_binary [- 1, 0, 101] 1 = Inr ((replicate 65 0)[64 := - 1])"
proof
  have r: "py_range 64 66 = [64, 65]" by (simp add: py_range_def upto.simps)
  show "get_working_binary [64, 66, 101] 1 = Inl IndexError"
    by (simp add: get_working_binary_def py_eval r setitem_update setitem_beyond)
next
  have r: "py_range (- 1) 0 = [- 1]" by (simp add: py_range_def upto.simps)
  have c: "\<lceil>- 1 :: rat\<rceil> = - 1" using ceiling_of_int [of "- 1", where ?'a = rat] by simp
  show "get_working_binary [- 1, 0, 101] 1 = Inr ((replicate 65 0)[64 := - 1])"
    by (simp add: get_working_binary_def py_eval c r setitem_def subscript_def)
qed

section \<open>The multiplier of the back-off\<close>




section \<open>The threshold at a loss\<close>

text \<open>
  Claim C3. Take a pass on a lost step \<open>t\<close> with the multiplier \<open>b\<close>, \<open>t + b\<close> inside the
  horizon, the numbers of lines 115-116 finite and the flight size \<open>f\<close> of the pass below
  \<open>2 ^ 53\<close> in magnitude (so that \<open>f / 2\<close> is a float). The pass returns without leaving the
  loop; the next step is \<open>t + b\<close>; \<^verbatim>\<open>cwnd[t + b]\<close> is 1; \<^verbatim>\<open>ssthresh[x]\<close> is \<open>max(2, f / 2)\<close> for
  every \<open>x\<close> from \<open>t + b\<close> to 64 and is what it was for every \<open>x\<close> below \<open>t + b\<close>; and
  \<^verbatim>\<open>total_sent\<close> is what it was. A pass on a step that is not lost leaves \<^verbatim>\<open>ssthresh\<close> as it
  was, so the revision stays until another loss.
\<close>

theorem loss_step_effect:
  assumes len: "lists_65 rcwnd wb s"
    and t: "0 \<le> st_t s" "st_t s < 65"
  shows "(wb ! nat (st_t s) = - 1 \<and> 0 < st_back_off s \<and> st_t s + st_back_off s < 65
          \<and> finite_pass tp rcwnd s \<and> \<bar>flight_at tp rcwnd s\<bar> < 2 ^ 53 \<longrightarrow>
           (\<exists>s'. loop_body tp td rcwnd wb s = Inr (False, s') \<and>
                 st_t s' = st_t s + st_back_off s \<and>
                 st_cwnd s' ! nat (st_t s + st_back_off s) = PInt 1 \<and>
                 (\<forall>x. st_t s + st_back_off s \<le> x \<and> x \<le> 64 \<longrightarrow>
                      val (st_ssthresh s' ! nat x) = max 2 (of_int (flight_at tp rcwnd s) / 2)) \<and>
                 (\<forall>x. 0 \<le> x \<and> x < st_t s + st_back_off s \<longrightarrow>
                      st_ssthresh s' ! nat x = st_ssthresh s ! nat x) \<and>
                 st_total_sent s' = st_total_sent s))
       \<and> (wb ! nat (st_t s) \<noteq> - 1 \<longrightarrow>
           (\<forall>brk s'. loop_body tp td rcwnd wb s = Inr (brk, s') \<longrightarrow>
                      st_ssthresh s' = st_ssthresh s))"
proof (intro conjI impI)
  assume a: "wb ! nat (st_t s) = - 1 \<and> 0 < st_back_off s \<and> st_t s + st_back_off s < 65
          \<and> finite_pass tp rcwnd s \<and> \<bar>flight_at tp rcwnd s\<bar> < 2 ^ 53"
  let ?t' = "st_t s + st_back_off s"
  let ?s' = "after_loss tp td rcwnd s"
  have t': "0 \<le> ?t'" "?t' < 65" using a t by simp_all
  have body: "loop_body tp td rcwnd wb s = Inr (False, ?s')"
    using len t a t' by (intro loss_pass) simp_all
  have l: "length (st_ssthresh s) = 65" "length (st_cwnd s) = 65"
    using len by (simp_all add: lists_65_def)
  have n: "nat ?t' < 65" using t' by linarith
  have "st_cwnd ?s' ! nat ?t' = PInt 1" using l n by (simp add: after_loss_def)
  moreover have "\<forall>x. ?t' \<le> x \<and> x \<le> 64 \<longrightarrow>
                  val (st_ssthresh ?s' ! nat x) = max 2 (of_int (flight_at tp rcwnd s) / 2)"
  proof (intro allI impI)
    fix x assume x: "?t' \<le> x \<and> x \<le> 64"
    then have "nat ?t' \<le> nat x" "nat x < 65" using t' by linarith+
    then have "st_ssthresh ?s' ! nat x = py_max (PInt 2) (PFloat (of_int (flight_at tp rcwnd s) / 2))"
      unfolding after_loss_ssthresh using l(1) by (simp only: revised_nth)
    then show "val (st_ssthresh ?s' ! nat x) = max 2 (of_int (flight_at tp rcwnd s) / 2)"
      by simp
  qed
  moreover have "\<forall>x. 0 \<le> x \<and> x < ?t' \<longrightarrow> st_ssthresh ?s' ! nat x = st_ssthresh s ! nat x"
  proof (intro allI impI)
    fix x assume x: "0 \<le> x \<and> x < ?t'"
    then have "nat x < nat ?t'" by linarith
    then show "st_ssthresh ?s' ! nat x = st_ssthresh s ! nat x"
      unfolding after_loss_ssthresh using l(1) n by (simp only: kept_nth)
  qed
  ultimately show "\<exists>s'. loop_body tp td rcwnd wb s = Inr (False, s') \<and>
                 st_t s' = st_t s + st_back_off s \<and>
                 st_cwnd s' ! nat (st_t s + st_back_off s) = PInt 1 \<and>
                 (\<forall>x. st_t s + st_back_off s \<le> x \<and> x \<le> 64 \<longrightarrow>
                      val (st_ssthresh s' ! nat x) = max 2 (of_int (flight_at tp rcwnd s) / 2)) \<and>
                 (\<forall>x. 0 \<le> x \<and> x < st_t s + st_back_off s \<longrightarrow>
                      st_ssthresh s' ! nat x = st_ssthresh s ! nat x) \<and>
                 st_total_sent s' = st_total_sent s"
    using body by (intro exI [of _ ?s']) (simp add: after_loss_def)
next
  assume "wb ! nat (st_t s) \<noteq> - 1"
  then have "getitem wb (st_t s) \<noteq> Inr (- 1)"
    using len t by (simp add: getitem_nth lists_65_def)
  then show "\<forall>brk s'. loop_body tp td rcwnd wb s = Inr (brk, s') \<longrightarrow>
                      st_ssthresh s' = st_ssthresh s"
    using pass_ssthresh_kept by blast
qed

text \<open>
  A lost step 3 with the multiplier 4, the window 7 and the threshold 8: the next step is 7,
  the threshold is 3.5 from step 7 on and still 8 at step 6.
\<close>

theorem loss_step_effect_witness:
  "\<exists>s'. loop_body (PFloat 50) 50 (replicate 65 (PFloat 100)) (replicate 65 (- 1))
           \<lparr>st_cwnd = replicate 65 (PInt 7), st_sndwnd = replicate 65 1,
            st_ssthresh = replicate 65 (PFloat 8),
            st_back_off = 4, st_total_sent = 0, st_t = 3, st_flight_size = 0\<rparr> = Inr (False, s')
        \<and> st_t s' = 7 \<and> st_cwnd s' ! 7 = PInt 1 \<and> val (st_ssthresh s' ! 7) = 7 / 2
        \<and> val (st_ssthresh s' ! 64) = 7 / 2 \<and> st_ssthresh s' ! 6 = PFloat 8
        \<and> st_total_sent s' = 0"
proof -
  let ?s = "\<lparr>st_cwnd = replicate 65 (PInt 7), st_sndwnd = replicate 65 1,
            st_ssthresh = replicate 65 (PFloat 8),
            st_back_off = 4, st_total_sent = 0, st_t = 3, st_flight_size = 0\<rparr>"
  let ?rc = "replicate 65 (PFloat 100)"
  have f: "flight_at (PFloat 50) ?rc ?s = 7"
    by (simp add: flight_at_def remaining_at_def window_at_def py_eval)
  have g: "finite_pass (PFloat 50) ?rc ?s"
    by (simp add: finite_pass_def remaining_at_def py_eval)
  have h: "lists_65 ?rc (replicate 65 (- 1)) ?s" "0 \<le> st_t ?s" "st_t ?s < 65"
    by (simp_all add: lists_65_def)
  have p: "replicate 65 (- 1) ! nat (st_t ?s) = - 1 \<and> 0 < st_back_off ?s
             \<and> st_t ?s + st_back_off ?s < 65 \<and> finite_pass (PFloat 50) ?rc ?s
             \<and> \<bar>flight_at (PFloat 50) ?rc ?s\<bar> < 2 ^ 53"
    using g by (simp add: f)
  from mp [OF loss_step_effect [OF h, of "PFloat 50" 50, THEN conjunct1] p] obtain s' where
    b: "loop_body (PFloat 50) 50 ?rc (replicate 65 (- 1)) ?s = Inr (False, s')"
    and r: "st_t s' = st_t ?s + st_back_off ?s"
           "st_cwnd s' ! nat (st_t ?s + st_back_off ?s) = PInt 1"
           "st_total_sent s' = st_total_sent ?s"
    and u: "\<forall>x. st_t ?s + st_back_off ?s \<le> x \<and> x \<le> 64 \<longrightarrow>
                val (st_ssthresh s' ! nat x) = max 2 (of_int (flight_at (PFloat 50) ?rc ?s) / 2)"
    and k: "\<forall>x. 0 \<le> x \<and> x < st_t ?s + st_back_off ?s \<longrightarrow>
                st_ssthresh s' ! nat x = st_ssthresh ?s ! nat x"
    by blast
  have "val (st_ssthresh s' ! 7) = 7 / 2" "val (st_ssthresh s' ! 64) = 7 / 2"
       "st_ssthresh s' ! 6 = PFloat 8"
    using u [rule_format, of 7] u [rule_format, of 64] k [rule_format, of 6] f by simp_all
  then show ?thesis using b r by simp
qed

section \<open>The floor of the threshold\<close>




end
